theory Spec2Isabelle
  imports Complex_Main "HOL-Library.Multiset" "HOL-Library.Monad_Syntax" "HOL-Library.Sublist"
begin

section \<open>Huffman coding utility: the data model\<close>

text \<open>
  The Python class \<open>Node\<close> has four fields: \<open>char\<close> (a symbol, or \<open>None\<close> for a merged
  node), \<open>freq\<close>, and the two children \<open>left\<close> and \<open>right\<close>, each a \<open>Node\<close> or \<open>None\<close>.
  Symbols are only ever compared for equality, so their type is a parameter.
  Python integers are unbounded: frequencies are \<open>int\<close>.
\<close>

datatype 'a node =
  Node (char: "'a option") (freq: int) (left: "'a node option") (right: "'a node option")

text \<open>\<open>Node.__lt__\<close>: nodes are ordered by frequency alone.\<close>

definition node_lt :: "'a node \<Rightarrow> 'a node \<Rightarrow> bool" where
  "node_lt self other = (freq self < freq other)"

subsection \<open>Dictionaries\<close>

text \<open>
  A Python \<open>dict\<close> iterates in insertion order, and the order in which the frequency
  table is iterated decides the order of the pushes onto the priority queue. A dictionary
  is therefore an association list with distinct keys: storing under a key that is present
  replaces the value in place, storing under a new key appends at the end.
\<close>

type_synonym ('k, 'v) dict = "('k \<times> 'v) list"

fun dict_set :: "'k \<Rightarrow> 'v \<Rightarrow> ('k, 'v) dict \<Rightarrow> ('k, 'v) dict" where
  "dict_set k v [] = [(k, v)]"
| "dict_set k v (p # ps) = (if fst p = k then (k, v) # ps else p # dict_set k v ps)"

definition dict_get :: "('k, 'v) dict \<Rightarrow> 'k \<Rightarrow> 'v \<Rightarrow> 'v" where
  "dict_get d k dflt = (case map_of d k of None \<Rightarrow> dflt | Some v \<Rightarrow> v)"

definition keys :: "('k, 'v) dict \<Rightarrow> 'k set" where
  "keys d = fst ` set d"

text \<open>
  \<open>Counter(text)\<close> counts the elements in one pass from left to right:
  \<open>mapping[elem] = mapping.get(elem, 0) + 1\<close>.
\<close>

definition Counter :: "'a list \<Rightarrow> ('a, int) dict" where
  "Counter text = foldl (\<lambda>mapping elem. dict_set elem (dict_get mapping elem 0 + 1) mapping) [] text"

section \<open>The priority queue: \<open>heapq\<close> on a list\<close>

text \<open>
  \<open>heapq\<close> keeps a binary heap in a list. The two sift loops move a hole through the
  list and write \<open>newitem\<close> into it at the end. Every index read below is in range
  whenever the functions are entered from \<open>heappush\<close> and \<open>heappop\<close>.
\<close>

function siftdown_loop :: "'a node list \<Rightarrow> 'a node \<Rightarrow> nat \<Rightarrow> nat \<Rightarrow> 'a node list" where
  "siftdown_loop heap newitem startpos pos =
     (if pos > startpos then
        (let parentpos = (pos - 1) div 2;
             parent = heap ! parentpos
         in if node_lt newitem parent
            then siftdown_loop (heap[pos := parent]) newitem startpos parentpos
            else heap[pos := newitem])
      else heap[pos := newitem])"
  by pat_completeness auto
termination
  by (relation "measure (\<lambda>(heap, newitem, startpos, pos). pos)") auto

definition siftdown :: "'a node list \<Rightarrow> nat \<Rightarrow> nat \<Rightarrow> 'a node list" where
  "siftdown heap startpos pos = siftdown_loop heap (heap ! pos) startpos pos"

function siftup_loop :: "'a node list \<Rightarrow> 'a node \<Rightarrow> nat \<Rightarrow> nat \<Rightarrow> 'a node list" where
  "siftup_loop heap newitem startpos pos =
     (let endpos = length heap;
          childpos = 2 * pos + 1
      in if childpos < endpos then
           (let rightpos = childpos + 1;
                childpos = (if rightpos < endpos \<and> \<not> node_lt (heap ! childpos) (heap ! rightpos)
                            then rightpos else childpos)
            in siftup_loop (heap[pos := heap ! childpos]) newitem startpos childpos)
         else siftdown (heap[pos := newitem]) startpos pos)"
  by pat_completeness auto
termination
  by (relation "measure (\<lambda>(heap, newitem, startpos, pos). length heap - pos)") auto

definition siftup :: "'a node list \<Rightarrow> nat \<Rightarrow> 'a node list" where
  "siftup heap pos = siftup_loop heap (heap ! pos) pos pos"

definition heappush :: "'a node list \<Rightarrow> 'a node \<Rightarrow> 'a node list" where
  "heappush heap item = (let heap = heap @ [item] in siftdown heap 0 (length heap - 1))"

text \<open>
  \<open>heappop\<close> starts with \<open>heap.pop()\<close>, which raises \<open>IndexError\<close> on an empty list:
  that is the result \<open>None\<close>. Otherwise it returns the popped item and the new list.
\<close>

definition heappop :: "'a node list \<Rightarrow> ('a node \<times> 'a node list) option" where
  "heappop heap =
     (if heap = [] then None
      else (let lastelt = last heap;
                heap = butlast heap
            in if heap \<noteq> [] then
                 (let returnitem = heap ! 0;
                      heap = heap[0 := lastelt]
                  in Some (returnitem, siftup heap 0))
               else Some (lastelt, heap)))"

subsection \<open>The queue operations keep the elements\<close>

text \<open>
  The sift loops are recursive equations guarded by their loop condition; they are unfolded
  one iteration at a time, never by the simplifier on its own.
\<close>

declare siftdown_loop.simps [simp del] siftup_loop.simps [simp del]

lemma siftdown_loop_length [simp]:
  "length (siftdown_loop heap newitem startpos pos) = length heap"
proof (induction heap newitem startpos pos rule: siftdown_loop.induct)
  case (1 heap newitem startpos pos)
  then show ?case
    by (subst siftdown_loop.simps) (simp add: Let_def)
qed

lemma update_update_mset:
  assumes "i < length xs" "j < length xs" "i \<noteq> j"
  shows "mset (xs[i := xs ! j, j := v]) = mset (xs[i := v])"
  using assms by (simp add: mset_update nth_list_update)

lemma siftdown_loop_mset:
  "pos < length heap \<Longrightarrow>
   mset (siftdown_loop heap newitem startpos pos) = mset (heap[pos := newitem])"
proof (induction heap newitem startpos pos rule: siftdown_loop.induct)
  case (1 heap newitem startpos pos)
  let ?pp = "(pos - 1) div 2"
  show ?case
  proof (cases "pos > startpos \<and> node_lt newitem (heap ! ?pp)")
    case True
    then have pp: "?pp < pos" by auto
    have "mset (siftdown_loop heap newitem startpos pos) =
          mset (siftdown_loop (heap[pos := heap ! ?pp]) newitem startpos ?pp)"
      using True by (subst siftdown_loop.simps) (simp add: Let_def)
    also have "\<dots> = mset (heap[pos := heap ! ?pp, ?pp := newitem])"
      using "1.IH" [OF _ refl refl] True pp "1.prems" by simp
    also have "\<dots> = mset (heap[pos := newitem])"
      using pp "1.prems" by (intro update_update_mset) auto
    finally show ?thesis .
  next
    case False
    then show ?thesis
      by (subst siftdown_loop.simps) (auto simp: Let_def)
  qed
qed

lemma siftdown_length [simp]: "length (siftdown heap startpos pos) = length heap"
  by (simp add: siftdown_def)

lemma siftdown_mset: "pos < length heap \<Longrightarrow> mset (siftdown heap startpos pos) = mset heap"
  by (simp add: siftdown_def siftdown_loop_mset)

lemma siftup_loop_length [simp]:
  "length (siftup_loop heap newitem startpos pos) = length heap"
proof (induction heap newitem startpos pos rule: siftup_loop.induct)
  case (1 heap newitem startpos pos)
  then show ?case
    by (subst siftup_loop.simps) (simp add: Let_def)
qed

lemma siftup_loop_mset:
  "pos < length heap \<Longrightarrow>
   mset (siftup_loop heap newitem startpos pos) = mset (heap[pos := newitem])"
proof (induction heap newitem startpos pos rule: siftup_loop.induct)
  case (1 heap newitem startpos pos)
  let ?c = "2 * pos + 1"
  let ?c' = "if ?c + 1 < length heap \<and> \<not> node_lt (heap ! ?c) (heap ! (?c + 1)) then ?c + 1 else ?c"
  show ?case
  proof (cases "?c < length heap")
    case True
    then have c': "?c' < length heap" "pos < ?c'" by auto
    have "mset (siftup_loop heap newitem startpos pos) =
          mset (siftup_loop (heap[pos := heap ! ?c']) newitem startpos ?c')"
      using True by (subst siftup_loop.simps) (simp add: Let_def)
    also have "\<dots> = mset (heap[pos := heap ! ?c', ?c' := newitem])"
      using "1.IH" [OF refl refl True refl refl] c' by simp
    also have "\<dots> = mset (heap[pos := newitem])"
      using c' "1.prems" by (intro update_update_mset) auto
    finally show ?thesis .
  next
    case False
    then show ?thesis
      using "1.prems" by (subst siftup_loop.simps) (simp add: Let_def siftdown_mset)
  qed
qed

lemma siftup_length [simp]: "length (siftup heap pos) = length heap"
  by (simp add: siftup_def)

lemma siftup_mset: "pos < length heap \<Longrightarrow> mset (siftup heap pos) = mset heap"
  by (simp add: siftup_def siftup_loop_mset)

lemma heappush_length [simp]: "length (heappush heap item) = Suc (length heap)"
  by (simp add: heappush_def Let_def)

lemma heappush_mset [simp]: "mset (heappush heap item) = add_mset item (mset heap)"
  by (simp add: heappush_def Let_def siftdown_mset)

lemma heappop_Nil [simp]: "heappop [] = None"
  by (simp add: heappop_def)

lemma heappop_Some:
  "heap \<noteq> [] \<Longrightarrow> \<exists>x heap'. heappop heap = Some (x, heap')"
  by (simp add: heappop_def Let_def)

lemma heappop_mset:
  assumes "heappop heap = Some (x, heap')"
  shows "mset heap = add_mset x (mset heap')"
proof -
  from assms have ne: "heap \<noteq> []" by (auto simp: heappop_def)
  then have split: "heap = butlast heap @ [last heap]" by simp
  show ?thesis
  proof (cases "butlast heap = []")
    case True
    with assms ne split show ?thesis
      by (auto simp: heappop_def Let_def)
  next
    case False
    then have pos: "0 < length (butlast heap)" by (metis length_greater_0_conv)
    from assms ne False have x: "x = butlast heap ! 0"
      and h: "heap' = siftup ((butlast heap)[0 := last heap]) 0"
      by (auto simp: heappop_def Let_def)
    have "mset heap' = mset ((butlast heap)[0 := last heap])"
      unfolding h using pos by (simp add: siftup_mset)
    also have "\<dots> = add_mset (last heap) (mset (butlast heap) - {#x#})"
      using pos by (simp add: mset_update x)
    finally have "add_mset x (mset heap') = add_mset (last heap) (mset (butlast heap))"
      using pos x by simp
    also have "\<dots> = mset heap"
      by (subst (3) split) simp
    finally show ?thesis by simp
  qed
qed

lemma heappop_length:
  "heappop heap = Some (x, heap') \<Longrightarrow> Suc (length heap') = length heap"
  using heappop_mset [of heap x heap'] by (metis size_add_mset size_mset)

section \<open>Building the tree\<close>

text \<open>The first loop of \<open>build_huffman_tree\<close>: one leaf per entry of the frequency table.\<close>

definition push_leaves :: "('a, int) dict \<Rightarrow> 'a node list \<Rightarrow> 'a node list" where
  "push_leaves frequencies priority_queue =
     foldl (\<lambda>pq (c, f). heappush pq (Node (Some c) f None None)) priority_queue frequencies"

text \<open>The single-symbol branch: the only leaf becomes the left child of a parent with no right child.\<close>

definition wrap_single :: "'a node list \<Rightarrow> 'a node list option" where
  "wrap_single priority_queue =
     (if length priority_queue = 1 then
        do { (node, pq) \<leftarrow> heappop priority_queue;
             let parent_node = Node None (freq node) (Some node) None;
             Some (heappush pq parent_node) }
      else Some priority_queue)"

text \<open>The body of the \<open>while\<close> loop: one merge.\<close>

definition merge_step :: "'a node list \<Rightarrow> 'a node list option" where
  "merge_step priority_queue =
     do { (left_child, pq1) \<leftarrow> heappop priority_queue;
          (right_child, pq2) \<leftarrow> heappop pq1;
          let merged_freq = freq left_child + freq right_child;
          let parent_node = Node None merged_freq (Some left_child) (Some right_child);
          Some (heappush pq2 parent_node) }"


lemma merge_step_length:
  assumes "merge_step pq = Some pq'"
  shows "Suc (length pq') = length pq"
proof -
  from assms obtain a pq1 b pq2 where
    "heappop pq = Some (a, pq1)" "heappop pq1 = Some (b, pq2)"
    and pq': "pq' = heappush pq2 (Node None (freq a + freq b) (Some a) (Some b))"
    by (auto simp: merge_step_def Let_def split: bind_splits)
  then show ?thesis
    using heappop_length [of pq a pq1] heappop_length [of pq1 b pq2] by simp
qed

text \<open>The \<open>while\<close> loop: merge until at most one node is left.\<close>

function merge_loop :: "'a node list \<Rightarrow> 'a node list option" where
  "merge_loop priority_queue =
     (if length priority_queue > 1 then
        do { pq \<leftarrow> merge_step priority_queue; merge_loop pq }
      else Some priority_queue)"
  by pat_completeness auto
termination
  by (relation "measure length") (auto dest: merge_step_length)

declare merge_loop.simps [simp del]

text \<open>
  \<open>build_huffman_tree\<close> returns the root (or \<open>None\<close> for the empty text) and the
  frequency table. The outer \<open>option\<close> is \<open>None\<close> when an exception escapes.
\<close>

definition build_huffman_tree :: "'a list \<Rightarrow> ('a node option \<times> ('a, int) dict) option" where
  "build_huffman_tree text =
     (if text = [] then Some (None, [])
      else
        (let frequencies = Counter text;
             priority_queue = push_leaves frequencies []
         in do { priority_queue \<leftarrow> wrap_single priority_queue;
                 priority_queue \<leftarrow> merge_loop priority_queue;
                 (root_node, _) \<leftarrow> heappop priority_queue;
                 Some (Some root_node, frequencies) }))"

section \<open>Generating the codes\<close>

text \<open>
  \<open>_get_codes_recursive\<close> writes into the dictionary \<open>codes\<close> of the enclosing call;
  here the dictionary is passed in and returned. A node with a symbol ends the descent,
  whatever its children are.
\<close>

fun get_codes_recursive :: "'a node option \<Rightarrow> string \<Rightarrow> ('a, string) dict \<Rightarrow> ('a, string) dict" where
  "get_codes_recursive None current_code codes = codes"
| "get_codes_recursive (Some (Node (Some c) f l r)) current_code codes =
     (if current_code = [] then dict_set c ''0'' codes else dict_set c current_code codes)"
| "get_codes_recursive (Some (Node None f l r)) current_code codes =
     get_codes_recursive r (current_code @ ''1'')
       (get_codes_recursive l (current_code @ ''0'') codes)"

text \<open>The result is the triple (codes, frequencies, root node), as in the source.\<close>

definition generate_huffman_codes ::
  "'a list \<Rightarrow> (('a, string) dict \<times> ('a, int) dict \<times> 'a node option) option" where
  "generate_huffman_codes text =
     do { (root_node, frequencies) \<leftarrow> build_huffman_tree text;
          if root_node = None then Some ([], [], None)
          else Some (get_codes_recursive root_node [] [], frequencies, root_node) }"

section \<open>The size comparison of \<open>huffman_utility\<close>\<close>

text \<open>The loop that adds up \<open>len(codes.get(char, "")) * freq\<close> over the frequency table.\<close>

definition compressed_size :: "('a, int) dict \<Rightarrow> ('a, string) dict \<Rightarrow> int" where
  "compressed_size frequencies codes =
     foldl (\<lambda>acc (c, f). acc + int (length (dict_get codes c [])) * f) 0 frequencies"

text \<open>
  Python's \<open>/\<close> on two integers raises \<open>ZeroDivisionError\<close> when the divisor is 0:
  that is the result \<open>None\<close>. Otherwise it returns the double nearest to the quotient;
  the model returns the quotient itself, so a value is meant literally only where the
  quotient is a double.
\<close>

definition truediv :: "int \<Rightarrow> int \<Rightarrow> real option" where
  "truediv a b = (if b = 0 then None else Some (real_of_int a / real_of_int b))"

text \<open>
  The guarded expression \<open>(savings / original_size_bits * 100) if original_size_bits > 0 else 0\<close>:
  the division is evaluated only in the first branch.
\<close>

definition savings_percent_of :: "int \<Rightarrow> int \<Rightarrow> real option" where
  "savings_percent_of savings original_size_bits =
     (if original_size_bits > 0 then
        do { quotient \<leftarrow> truediv savings original_size_bits; Some (quotient * 100) }
      else Some 0)"

text \<open>
  \<open>huffman_utility\<close> returns four values for the interface. For an empty input they are
  the placeholders \<open>(None, "N/A", "N/A", None)\<close>. Otherwise the two size strings are
  formatted from the numbers kept here; the table rows and the rendered image are
  presentation and are left out.
\<close>

datatype size_report =
  Not_Applicable
| Sizes (original_size_bits: int) (compressed_size_bits: int) (savings: int) (savings_percent: real)

definition huffman_utility :: "'a list \<Rightarrow> size_report option" where
  "huffman_utility input_text =
     (if input_text = [] then Some Not_Applicable
      else
        do { (codes, frequencies, root_node) \<leftarrow> generate_huffman_codes input_text;
             let original_size_bits = int (length input_text) * 8;
             let compressed_size_bits = compressed_size frequencies codes;
             let savings = original_size_bits - compressed_size_bits;
             savings_percent \<leftarrow> savings_percent_of savings original_size_bits;
             Some (Sizes original_size_bits compressed_size_bits savings savings_percent) })"

section \<open>Properties of trees and code tables\<close>

text \<open>
  The symbols that a traversal from a node reaches: a node with a symbol counts as a leaf,
  an absent child contributes nothing.
\<close>

fun symbols :: "'a node option \<Rightarrow> 'a set" where
  "symbols None = {}"
| "symbols (Some (Node (Some c) f l r)) = {c}"
| "symbols (Some (Node None f l r)) = symbols l \<union> symbols r"

text \<open>
  A tree is strictly binary when every node without a symbol has both children and a
  frequency that is the sum of theirs.
\<close>

fun strictly_binary :: "'a node \<Rightarrow> bool" where
  "strictly_binary (Node (Some c) f l r) = True"
| "strictly_binary (Node None f (Some a) (Some b)) =
     (f = freq a + freq b \<and> strictly_binary a \<and> strictly_binary b)"
| "strictly_binary (Node None f l r) = False"

text \<open>The leaf that the first loop of the builder makes of an entry of the table.\<close>

definition leaf_of :: "'a \<times> int \<Rightarrow> 'a node" where
  "leaf_of p = Node (Some (fst p)) (snd p) None None"

text \<open>
  The (symbol, code) pairs in the order in which the traversal stores them.
\<close>

fun code_entries :: "'a node option \<Rightarrow> string \<Rightarrow> ('a \<times> string) list" where
  "code_entries None current_code = []"
| "code_entries (Some (Node (Some c) f l r)) current_code =
     [(c, if current_code = [] then ''0'' else current_code)]"
| "code_entries (Some (Node None f l r)) current_code =
     code_entries l (current_code @ ''0'') @ code_entries r (current_code @ ''1'')"

text \<open>No code of the table is a prefix of the code of another symbol.\<close>

definition prefix_free :: "('a, string) dict \<Rightarrow> bool" where
  "prefix_free codes =
     (\<forall>(c1, w1) \<in> set codes. \<forall>(c2, w2) \<in> set codes. c1 \<noteq> c2 \<longrightarrow> \<not> prefix w1 w2)"

text \<open>
  Re-encoding a sequence: the codes of its symbols, concatenated. The program has no
  encoder; this follows the specification's wording. A symbol without a code is \<open>None\<close>.
\<close>

fun encode :: "('a, string) dict \<Rightarrow> 'a list \<Rightarrow> string option" where
  "encode codes [] = Some []"
| "encode codes (c # cs) =
     (case map_of codes c of
        None \<Rightarrow> None
      | Some w \<Rightarrow> map_option (\<lambda>bits. w @ bits) (encode codes cs))"

text \<open>The heap condition of \<open>heapq\<close>: no element is smaller than its parent.\<close>

definition is_heap :: "'a node list \<Rightarrow> bool" where
  "is_heap heap = (\<forall>i < length heap. 0 < i \<longrightarrow> freq (heap ! ((i - 1) div 2)) \<le> freq (heap ! i))"

text \<open>The length of the code of a symbol, as the size comparison reads it.\<close>

definition code_length :: "('a, string) dict \<Rightarrow> 'a \<Rightarrow> nat" where
  "code_length codes c = length (dict_get codes c [])"

text \<open>The compressed size that \<open>huffman_utility\<close> reports, when it reports one.\<close>

definition reported_compressed_bits :: "size_report option \<Rightarrow> int option" where
  "reported_compressed_bits result =
     (case result of Some (Sizes original compressed saved percent) \<Rightarrow> Some compressed | _ \<Rightarrow> None)"

section \<open>The guarded quotient\<close>

lemma savings_percent_of_pos:
  "0 < original \<Longrightarrow>
   savings_percent_of s original = Some (real_of_int s / real_of_int original * 100)"
  by (simp add: savings_percent_of_def truediv_def)

lemma huffman_utility_nonempty:
  assumes "input_text \<noteq> []"
    and "generate_huffman_codes input_text = Some (codes, frequencies, root_node)"
  shows "huffman_utility input_text =
           Some (Sizes (int (length input_text) * 8) (compressed_size frequencies codes)
                   (int (length input_text) * 8 - compressed_size frequencies codes)
                   (real_of_int (int (length input_text) * 8 - compressed_size frequencies codes) /
                    real_of_int (int (length input_text) * 8) * 100))"
proof -
  define orig where "orig = int (length input_text) * 8"
  define comp where "comp = compressed_size frequencies codes"
  have "0 < orig" using assms(1) by (simp add: orig_def)
  then have sp: "savings_percent_of (orig - comp) orig =
                 Some (real_of_int (orig - comp) / real_of_int orig * 100)"
    by (rule savings_percent_of_pos)
  have "huffman_utility input_text =
          do { savings_percent \<leftarrow> savings_percent_of (orig - comp) orig;
               Some (Sizes orig comp (orig - comp) savings_percent) }"
    using assms by (simp add: huffman_utility_def Let_def orig_def comp_def)
  also have "\<dots> = Some (Sizes orig comp (orig - comp)
                           (real_of_int (orig - comp) / real_of_int orig * 100))"
    by (simp only: sp bind.bind_lunit)
  finally show ?thesis unfolding orig_def comp_def .
qed

section \<open>Dictionaries and the frequency count\<close>

lemma keys_Nil [simp]: "keys [] = {}"
  by (simp add: keys_def)

lemma keys_dict_set [simp]: "keys (dict_set k v d) = insert k (keys d)"
  by (induction d) (auto simp: keys_def)

lemma map_fst_dict_set:
  "map fst (dict_set k v d) = (if k \<in> keys d then map fst d else map fst d @ [k])"
  by (induction d) (auto simp: keys_def)

lemma distinct_dict_set: "distinct (map fst d) \<Longrightarrow> distinct (map fst (dict_set k v d))"
  by (simp add: map_fst_dict_set keys_def)

lemma set_dict_set_subset: "set (dict_set k v d) \<subseteq> insert (k, v) (set d)"
  by (induction d) auto

lemma dict_get_Cons:
  "dict_get ((k, v) # d) x dflt = (if k = x then v else dict_get d x dflt)"
  by (simp add: dict_get_def)

lemma dict_get_map_of:
  "map_of d k = Some v \<Longrightarrow> dict_get d k dflt = v"
  by (simp add: dict_get_def)

lemma map_of_keys: "k \<in> keys d \<Longrightarrow> \<exists>v. map_of d k = Some v"
  by (metis keys_def map_of_eq_None_iff not_Some_eq)

abbreviation count_step :: "('a, int) dict \<Rightarrow> 'a \<Rightarrow> ('a, int) dict" where
  "count_step mapping elem \<equiv> dict_set elem (dict_get mapping elem 0 + 1) mapping"

lemma count_step_sum:
  fixes g :: "'a \<Rightarrow> int"
  shows "(\<Sum>(c, f)\<leftarrow>count_step d x. g c * f) = g x + (\<Sum>(c, f)\<leftarrow>d. g c * f)"
proof (induction d)
  case Nil
  show ?case by (simp add: dict_get_def)
next
  case (Cons p d)
  obtain k v where p: "p = (k, v)" by (cases p)
  show ?case
  proof (cases "k = x")
    case True
    then show ?thesis by (simp add: p dict_get_Cons algebra_simps)
  next
    case False
    then show ?thesis using Cons.IH by (simp add: p dict_get_Cons)
  qed
qed

lemma foldl_count_step_keys:
  "keys (foldl count_step d text) = keys d \<union> set text"
  by (induction "text" arbitrary: d) auto

lemma foldl_count_step_distinct:
  "distinct (map fst d) \<Longrightarrow> distinct (map fst (foldl count_step d text))"
  by (induction "text" arbitrary: d) (auto simp: distinct_dict_set)

lemma foldl_count_step_sum:
  fixes g :: "'a \<Rightarrow> int"
  shows "(\<Sum>(c, f)\<leftarrow>foldl count_step d text. g c * f) =
         (\<Sum>(c, f)\<leftarrow>d. g c * f) + (\<Sum>c\<leftarrow>text. g c)"
  by (induction "text" arbitrary: d) (auto simp: count_step_sum)

lemma keys_Counter: "keys (Counter text) = set text"
  by (simp add: Counter_def foldl_count_step_keys)

lemma distinct_Counter: "distinct (map fst (Counter text))"
  by (simp add: Counter_def foldl_count_step_distinct)

lemma Counter_sum:
  fixes g :: "'a \<Rightarrow> int"
  shows "(\<Sum>(c, f)\<leftarrow>Counter text. g c * f) = (\<Sum>c\<leftarrow>text. g c)"
  by (simp add: Counter_def foldl_count_step_sum)

lemma length_Counter: "length (Counter text) = card (set text)"
proof -
  have "length (Counter text) = length (map fst (Counter text))" by simp
  also have "\<dots> = card (set (map fst (Counter text)))"
    using distinct_Counter [of "text"] by (simp only: distinct_card)
  also have "set (map fst (Counter text)) = set text"
    using keys_Counter [of "text"] by (simp add: keys_def)
  finally show ?thesis .
qed

lemma Counter_replicate:
  "foldl count_step [(c, k)] (replicate n c) = [(c, k + int n)]"
  by (induction n arbitrary: k) (auto simp: dict_get_def)

lemma Counter_single:
  assumes "text \<noteq> []" "set text = {c}"
  shows "Counter text = [(c, int (length text))]"
proof -
  from assms have "text = replicate (length text) c"
    by (metis replicate_length_same singletonD)
  then obtain n where n: "text = replicate (Suc n) c" "length text = Suc n"
    using assms(1) by (metis length_0_conv length_replicate not0_implies_Suc)
  have "Counter (replicate (Suc n) c) = foldl count_step [(c, 1)] (replicate n c)"
    by (simp add: Counter_def dict_get_def)
  then show ?thesis using n by (simp add: Counter_replicate del: replicate.simps)
qed

section \<open>The merge loop\<close>

lemma push_leaves_mset:
  "mset (push_leaves frequencies pq) = mset pq + mset (map leaf_of frequencies)"
  unfolding push_leaves_def
  by (induction frequencies arbitrary: pq) (auto simp: leaf_of_def)

lemma push_leaves_length:
  "length (push_leaves frequencies pq) = length pq + length frequencies"
  using push_leaves_mset [of frequencies pq]
  by (metis length_map size_mset size_union)

lemma merge_step_Some:
  assumes "length pq > 1"
  obtains a b rest where
    "mset pq = add_mset a (add_mset b rest)"
    "\<exists>pq'. merge_step pq = Some pq' \<and>
       mset pq' = add_mset (Node None (freq a + freq b) (Some a) (Some b)) rest"
proof -
  from assms have "pq \<noteq> []" by auto
  then obtain a pq1 where a: "heappop pq = Some (a, pq1)"
    using heappop_Some by blast
  with assms have "pq1 \<noteq> []"
    using heappop_length [OF a] by auto
  then obtain b pq2 where b: "heappop pq1 = Some (b, pq2)"
    using heappop_Some by blast
  have "mset pq = add_mset a (add_mset b (mset pq2))"
    using heappop_mset [OF a] heappop_mset [OF b] by simp
  moreover have "merge_step pq = Some (heappush pq2 (Node None (freq a + freq b) (Some a) (Some b)))"
    by (simp add: merge_step_def a b)
  ultimately show thesis
    by (intro that [of a b "mset pq2"]) auto
qed

lemma merge_loop_invariant:
  assumes step: "\<And>a b. P a \<Longrightarrow> P b \<Longrightarrow> P (Node None (freq a + freq b) (Some a) (Some b))"
    and "\<forall>n \<in> set pq. P n"
  shows "\<exists>pq'. merge_loop pq = Some pq' \<and> (\<forall>n \<in> set pq'. P n) \<and>
           length pq' = min 1 (length pq) \<and>
           (\<Union>n \<in> set pq'. symbols (Some n)) = (\<Union>n \<in> set pq. symbols (Some n))"
  using assms(2)
proof (induction pq rule: merge_loop.induct)
  case (1 pq)
  show ?case
  proof (cases "length pq > 1")
    case False
    then show ?thesis using "1.prems"
      by (subst merge_loop.simps) auto
  next
    case True
    then obtain a b rest pq' where m: "mset pq = add_mset a (add_mset b rest)"
      and s: "merge_step pq = Some pq'"
      and m': "mset pq' = add_mset (Node None (freq a + freq b) (Some a) (Some b)) rest"
      using merge_step_Some [of pq] by metis
    have set_pq: "set pq = insert a (insert b (set_mset rest))"
      using m by (metis set_mset_add_mset_insert set_mset_mset)
    have set_pq': "set pq' = insert (Node None (freq a + freq b) (Some a) (Some b)) (set_mset rest)"
      using m' by (metis set_mset_add_mset_insert set_mset_mset)
    have P': "\<forall>n \<in> set pq'. P n"
      using "1.prems" step by (auto simp: set_pq set_pq')
    from "1.IH" [OF True s P'] obtain r where
      r: "merge_loop pq' = Some r" "\<forall>n \<in> set r. P n" "length r = min 1 (length pq')"
         "(\<Union>n \<in> set r. symbols (Some n)) = (\<Union>n \<in> set pq'. symbols (Some n))"
      by blast
    have len: "Suc (length pq') = length pq"
      using s by (rule merge_step_length)
    have "merge_loop pq = Some r"
      using True s r(1) by (subst merge_loop.simps) simp
    moreover have "length r = min 1 (length pq)"
      using r(3) len True by auto
    moreover have "(\<Union>n \<in> set pq'. symbols (Some n)) = (\<Union>n \<in> set pq. symbols (Some n))"
      by (auto simp: set_pq set_pq')
    ultimately show ?thesis using r by auto
  qed
qed

lemma heappop_single [simp]: "heappop [x] = Some (x, [])"
  by (simp add: heappop_def)

lemma heappush_Nil [simp]: "heappush [] x = [x]"
  by (simp add: heappush_def siftdown_def siftdown_loop.simps)

lemma merge_loop_short: "length pq \<le> 1 \<Longrightarrow> merge_loop pq = Some pq"
  by (subst merge_loop.simps) simp

lemma symbols_leaf_of [simp]: "symbols (Some (leaf_of p)) = {fst p}"
  by (simp add: leaf_of_def)

lemma strictly_binary_leaf_of [simp]: "strictly_binary (leaf_of p)"
  by (simp add: leaf_of_def)

lemma set_push_leaves: "set (push_leaves frequencies []) = leaf_of ` set frequencies"
proof -
  have "set_mset (mset (push_leaves frequencies [])) = set_mset (mset (map leaf_of frequencies))"
    by (simp add: push_leaves_mset)
  then show ?thesis by simp
qed

lemma symbols_push_leaves:
  "(\<Union>n \<in> set (push_leaves frequencies []). symbols (Some n)) = keys frequencies"
  by (auto simp: set_push_leaves keys_def)

lemma build_single:
  assumes "text \<noteq> []" "set text = {c}"
  shows "build_huffman_tree text =
         Some (Some (Node None (int (length text))
                      (Some (Node (Some c) (int (length text)) None None)) None),
               [(c, int (length text))])"
  using assms(1)
  by (simp add: build_huffman_tree_def Counter_single [OF assms] push_leaves_def
      wrap_single_def merge_loop_short)

lemma build_multi:
  assumes "2 \<le> card (set text)"
  shows "\<exists>root. build_huffman_tree text = Some (Some root, Counter text) \<and>
           strictly_binary root \<and> symbols (Some root) = set text"
proof -
  let ?fr = "Counter text"
  let ?pq = "push_leaves ?fr []"
  from assms have ne: "text \<noteq> []" by auto
  have len: "length ?pq \<ge> 2"
    using assms by (simp add: push_leaves_length length_Counter)
  then have wrap: "wrap_single ?pq = Some ?pq"
    by (simp add: wrap_single_def)
  have "\<forall>n \<in> set ?pq. strictly_binary n"
    by (auto simp: set_push_leaves)
  from merge_loop_invariant [where P = strictly_binary, OF _ this]
  obtain r where r: "merge_loop ?pq = Some r" "\<forall>n \<in> set r. strictly_binary n"
    "length r = min 1 (length ?pq)"
    "(\<Union>n \<in> set r. symbols (Some n)) = (\<Union>n \<in> set ?pq. symbols (Some n))"
    by auto
  from r(3) len have "length r = 1" by simp
  then obtain root where root: "r = [root]"
    by (cases r) auto
  have "build_huffman_tree text = Some (Some root, ?fr)"
    using ne by (simp add: build_huffman_tree_def wrap r(1) root)
  moreover have "strictly_binary root" using r(2) root by simp
  moreover have "symbols (Some root) = set text"
    using r(4) root by (simp add: symbols_push_leaves keys_Counter)
  ultimately show ?thesis by blast
qed

lemma build_nonempty:
  assumes "text \<noteq> []"
  shows "\<exists>root. build_huffman_tree text = Some (Some root, Counter text) \<and>
           symbols (Some root) = set text"
proof (cases "2 \<le> card (set text)")
  case True
  then show ?thesis using build_multi [of "text"] by blast
next
  case False
  moreover have "card (set text) \<noteq> 0" using assms by simp
  ultimately have "card (set text) = 1" by linarith
  then obtain c where c: "set text = {c}"
    by (metis card_1_singletonE)
  show ?thesis
    by (simp add: build_single [OF assms c] Counter_single [OF assms c] c)
qed

lemma build_empty [simp]: "build_huffman_tree [] = Some (None, [])"
  by (simp add: build_huffman_tree_def)

lemma keys_get_codes:
  "keys (get_codes_recursive n cur codes) = keys codes \<union> symbols n"
  by (induction n cur codes rule: get_codes_recursive.induct) auto

section \<open>The traversal\<close>

lemma get_codes_subset:
  "set (get_codes_recursive n cur codes) \<subseteq> set codes \<union> set (code_entries n cur)"
proof (induction n cur codes rule: get_codes_recursive.induct)
  case (1 cur codes)
  show ?case by simp
next
  case (2 c f l r cur codes)
  show ?case using set_dict_set_subset [of c _ codes] by auto
next
  case (3 f l r cur codes)
  then show ?case by auto
qed

lemma distinct_get_codes:
  "distinct (map fst codes) \<Longrightarrow> distinct (map fst (get_codes_recursive n cur codes))"
  by (induction n cur codes rule: get_codes_recursive.induct) (auto simp: distinct_dict_set)

lemma code_entries_extend:
  "cur \<noteq> [] \<Longrightarrow> e \<in> set (code_entries n cur) \<Longrightarrow> prefix cur (snd e)"
proof (induction n cur rule: code_entries.induct)
  case (3 f l r cur)
  then show ?case by (auto dest: append_prefixD)
qed auto

lemma prefix_same_length:
  "prefix xs zs \<Longrightarrow> prefix ys zs \<Longrightarrow> length xs = length ys \<Longrightarrow> xs = ys"
  by (metis prefix_length_le prefix_order.antisym prefix_same_cases prefix_length_prefix)

lemma code_entries_branches:
  assumes "e1 \<in> set (code_entries l (cur @ ''0''))" "e2 \<in> set (code_entries r (cur @ ''1''))"
  shows "\<not> prefix (snd e1) (snd e2)" "\<not> prefix (snd e2) (snd e1)"
proof -
  have p1: "prefix (cur @ ''0'') (snd e1)" and p2: "prefix (cur @ ''1'') (snd e2)"
    using assms by (auto intro: code_entries_extend)
  show "\<not> prefix (snd e1) (snd e2)"
  proof
    assume "prefix (snd e1) (snd e2)"
    with p1 have "prefix (cur @ ''0'') (snd e2)" by (rule prefix_order.trans)
    with p2 have "cur @ ''0'' = cur @ ''1''" by (intro prefix_same_length) auto
    then show False by simp
  qed
  show "\<not> prefix (snd e2) (snd e1)"
  proof
    assume "prefix (snd e2) (snd e1)"
    with p2 have "prefix (cur @ ''1'') (snd e1)" by (rule prefix_order.trans)
    with p1 have "cur @ ''0'' = cur @ ''1''" by (intro prefix_same_length) auto
    then show False by simp
  qed
qed

lemma code_entries_prefix_free:
  "e1 \<in> set (code_entries n cur) \<Longrightarrow> e2 \<in> set (code_entries n cur) \<Longrightarrow>
   prefix (snd e1) (snd e2) \<Longrightarrow> e1 = e2"
proof (induction n cur rule: code_entries.induct)
  case (3 f l r cur)
  from "3.prems" consider
      "e1 \<in> set (code_entries l (cur @ ''0''))" "e2 \<in> set (code_entries l (cur @ ''0''))"
    | "e1 \<in> set (code_entries r (cur @ ''1''))" "e2 \<in> set (code_entries r (cur @ ''1''))"
    | "e1 \<in> set (code_entries l (cur @ ''0''))" "e2 \<in> set (code_entries r (cur @ ''1''))"
    | "e2 \<in> set (code_entries l (cur @ ''0''))" "e1 \<in> set (code_entries r (cur @ ''1''))"
    by auto
  then show ?case
  proof cases
    case 1
    then show ?thesis using "3.IH"(1) "3.prems"(3) by blast
  next
    case 2
    then show ?thesis using "3.IH"(2) "3.prems"(3) by blast
  next
    case 3
    then show ?thesis using code_entries_branches(1) "3.prems"(3) by blast
  next
    case 4
    then show ?thesis using code_entries_branches(2) "3.prems"(3) by blast
  qed
qed auto

lemma prefix_free_get_codes: "prefix_free (get_codes_recursive n cur [])"
proof -
  have "set (get_codes_recursive n cur []) \<subseteq> set (code_entries n cur)"
    using get_codes_subset [of n cur "[]"] by simp
  then show ?thesis
    unfolding prefix_free_def using code_entries_prefix_free [of _ n cur] by fastforce
qed

lemma compressed_size_sum:
  "compressed_size frequencies codes =
   (\<Sum>(c, f)\<leftarrow>frequencies. int (length (dict_get codes c [])) * f)"
proof -
  have "foldl (\<lambda>acc (c, f). acc + int (length (dict_get codes c [])) * f) a frequencies =
        a + (\<Sum>(c, f)\<leftarrow>frequencies. int (length (dict_get codes c [])) * f)" for a
    by (induction frequencies arbitrary: a) (auto simp: algebra_simps)
  then show ?thesis by (simp add: compressed_size_def)
qed

lemma encode_length:
  "set text \<subseteq> keys codes \<Longrightarrow>
   \<exists>bits. encode codes text = Some bits \<and>
     int (length bits) = (\<Sum>c\<leftarrow>text. int (length (dict_get codes c [])))"
proof (induction "text")
  case Nil
  show ?case by simp
next
  case (Cons c cs)
  then obtain bits where bits: "encode codes cs = Some bits"
    "int (length bits) = (\<Sum>c\<leftarrow>cs. int (length (dict_get codes c [])))"
    by auto
  from Cons.prems obtain w where w: "map_of codes c = Some w"
    using map_of_keys [of c codes] by auto
  show ?case using bits w by (simp add: dict_get_def)
qed

lemma generate_empty [simp]: "generate_huffman_codes [] = Some ([], [], None)"
  by (simp add: generate_huffman_codes_def)

lemma generate_nonempty:
  assumes "text \<noteq> []"
  shows "\<exists>root. generate_huffman_codes text =
           Some (get_codes_recursive (Some root) [] [], Counter text, Some root) \<and>
           build_huffman_tree text = Some (Some root, Counter text) \<and>
           symbols (Some root) = set text"
  using build_nonempty [OF assms] by (auto simp: generate_huffman_codes_def)

section \<open>The queue is a heap\<close>

lemma parent_less: "0 < i \<Longrightarrow> (i - 1) div 2 < (i :: nat)"
  by auto

lemma parent_eq_cases:
  "0 < i \<Longrightarrow> (i - 1) div 2 = p \<Longrightarrow> i = 2 * p + 1 \<or> i = 2 * p + (2 :: nat)"
  by presburger

lemma siftdown_loop_heap:
  assumes "pos < length h"
    and "\<forall>i < length h. 0 < i \<and> i \<noteq> pos \<longrightarrow> freq (h ! ((i - 1) div 2)) \<le> freq (h ! i)"
    and "\<forall>i < length h. 0 < i \<and> (i - 1) div 2 = pos \<longrightarrow> freq newitem \<le> freq (h ! i)"
    and "\<forall>i < length h. 0 < i \<and> (i - 1) div 2 = pos \<and> 0 < pos \<longrightarrow>
           freq (h ! ((pos - 1) div 2)) \<le> freq (h ! i)"
  shows "is_heap (siftdown_loop h newitem 0 pos)"
  using assms
proof (induction h newitem "0::nat" pos rule: siftdown_loop.induct)
  case (1 h newitem pos)
  let ?pp = "(pos - 1) div 2"
  note inv1 = "1.prems"(2) and inv2 = "1.prems"(3) and inv3 = "1.prems"(4)
  show ?case
  proof (cases "0 < pos \<and> node_lt newitem (h ! ?pp)")
    case False
    have "is_heap (h[pos := newitem])"
      unfolding is_heap_def
    proof (intro allI impI)
      fix i assume i: "i < length (h[pos := newitem])" "0 < i"
      then have il: "i < length h" by simp
      have ne: "(i - 1) div 2 \<noteq> i" using parent_less [OF i(2)] by simp
      show "freq (h[pos := newitem] ! ((i - 1) div 2)) \<le> freq (h[pos := newitem] ! i)"
      proof (cases "i = pos")
        case True
        with False i(2) have "\<not> node_lt newitem (h ! ?pp)" by simp
        then show ?thesis using True ne il by (simp add: node_lt_def)
      next
        case neq: False
        show ?thesis
        proof (cases "(i - 1) div 2 = pos")
          case True
          then show ?thesis using inv2 il i(2) neq "1.prems"(1) by simp
        next
          case False
          then show ?thesis using inv1 il i(2) neq by simp
        qed
      qed
    qed
    then show ?thesis using False
      by (subst siftdown_loop.simps) (auto simp: Let_def)
  next
    case True
    then have pos: "0 < pos" and lt: "freq newitem < freq (h ! ?pp)"
      by (auto simp: node_lt_def)
    have pp: "?pp < pos" using pos by auto
    let ?h = "h[pos := h ! ?pp]"
    have eq: "siftdown_loop h newitem 0 pos = siftdown_loop ?h newitem 0 ?pp"
      using True by (subst siftdown_loop.simps) (simp add: Let_def)
    have len: "?pp < length ?h" using pp "1.prems"(1) by simp
    have a1: "\<forall>i < length ?h. 0 < i \<and> i \<noteq> ?pp \<longrightarrow> freq (?h ! ((i - 1) div 2)) \<le> freq (?h ! i)"
    proof (intro allI impI)
      fix i assume i: "i < length ?h" "0 < i \<and> i \<noteq> ?pp"
      then have il: "i < length h" by simp
      show "freq (?h ! ((i - 1) div 2)) \<le> freq (?h ! i)"
      proof (cases "i = pos")
        case True
        then show ?thesis using pp il by simp
      next
        case neq: False
        show ?thesis
        proof (cases "(i - 1) div 2 = pos")
          case True
          then show ?thesis using inv3 il i(2) neq pos "1.prems"(1) by simp
        next
          case False
          then show ?thesis using inv1 il i(2) neq by simp
        qed
      qed
    qed
    have a2: "\<forall>i < length ?h. 0 < i \<and> (i - 1) div 2 = ?pp \<longrightarrow> freq newitem \<le> freq (?h ! i)"
    proof (intro allI impI)
      fix i assume i: "i < length ?h" "0 < i \<and> (i - 1) div 2 = ?pp"
      then have il: "i < length h" by simp
      show "freq newitem \<le> freq (?h ! i)"
      proof (cases "i = pos")
        case True
        then show ?thesis using lt il by simp
      next
        case False
        then have "freq (h ! ?pp) \<le> freq (h ! i)" using inv1 il i(2) by auto
        then show ?thesis using lt False by simp
      qed
    qed
    have a3: "\<forall>i < length ?h. 0 < i \<and> (i - 1) div 2 = ?pp \<and> 0 < ?pp \<longrightarrow>
                freq (?h ! ((?pp - 1) div 2)) \<le> freq (?h ! i)"
    proof (intro allI impI)
      fix i assume i: "i < length ?h" "0 < i \<and> (i - 1) div 2 = ?pp \<and> 0 < ?pp"
      then have il: "i < length h" by simp
      from i(2) have ppp: "(?pp - 1) div 2 < ?pp" using parent_less by blast
      then have gp: "?h ! ((?pp - 1) div 2) = h ! ((?pp - 1) div 2)" using pp by simp
      have g: "freq (h ! ((?pp - 1) div 2)) \<le> freq (h ! ?pp)"
        using inv1 pp "1.prems"(1) i(2) by auto
      show "freq (?h ! ((?pp - 1) div 2)) \<le> freq (?h ! i)"
      proof (cases "i = pos")
        case True
        then show ?thesis using g gp il by simp
      next
        case False
        then have "freq (h ! ?pp) \<le> freq (h ! i)" using inv1 il i(2) by auto
        then show ?thesis using g gp False by simp
      qed
    qed
    show ?thesis
      unfolding eq using "1.hyps" [OF _ refl refl _ len a1 a2 a3] True by simp
  qed
qed

lemma siftdown_heap:
  assumes "pos < length h"
    and "\<forall>i < length h. 0 < i \<and> i \<noteq> pos \<longrightarrow> freq (h ! ((i - 1) div 2)) \<le> freq (h ! i)"
    and "\<forall>i < length h. 0 < i \<longrightarrow> (i - 1) div 2 \<noteq> pos"
  shows "is_heap (siftdown h 0 pos)"
  unfolding siftdown_def using assms by (intro siftdown_loop_heap) auto

lemma siftup_loop_heap:
  assumes "pos < length h"
    and "\<forall>i < length h. 0 < i \<and> i \<noteq> pos \<and> (i - 1) div 2 \<noteq> pos \<longrightarrow>
           freq (h ! ((i - 1) div 2)) \<le> freq (h ! i)"
    and "\<forall>i < length h. 0 < i \<and> (i - 1) div 2 = pos \<and> 0 < pos \<longrightarrow>
           freq (h ! ((pos - 1) div 2)) \<le> freq (h ! i)"
  shows "is_heap (siftup_loop h newitem 0 pos)"
  using assms
proof (induction h newitem "0::nat" pos rule: siftup_loop.induct)
  case (1 h newitem pos)
  let ?c = "2 * pos + 1"
  let ?c' = "if ?c + 1 < length h \<and> \<not> node_lt (h ! ?c) (h ! (?c + 1)) then ?c + 1 else ?c"
  note inv1 = "1.prems"(2) and inv3 = "1.prems"(3)
  show ?case
  proof (cases "?c < length h")
    case False
    have nochild: "\<forall>i < length h. 0 < i \<longrightarrow> (i - 1) div 2 \<noteq> pos"
      using False parent_eq_cases by fastforce
    let ?h = "h[pos := newitem]"
    have "is_heap (siftdown ?h 0 pos)"
    proof (rule siftdown_heap)
      show "pos < length ?h" using "1.prems"(1) by simp
      show "\<forall>i < length ?h. 0 < i \<and> i \<noteq> pos \<longrightarrow> freq (?h ! ((i - 1) div 2)) \<le> freq (?h ! i)"
        using inv1 nochild by (auto simp: nth_list_update)
      show "\<forall>i < length ?h. 0 < i \<longrightarrow> (i - 1) div 2 \<noteq> pos"
        using nochild by simp
    qed
    then show ?thesis using False
      by (subst siftup_loop.simps) (simp add: Let_def)
  next
    case True
    then have c': "?c' < length h" "pos < ?c'" "(?c' - 1) div 2 = pos" "0 < ?c'" by auto
    let ?h = "h[pos := h ! ?c']"
    have eq: "siftup_loop h newitem 0 pos = siftup_loop ?h newitem 0 ?c'"
      using True by (subst siftup_loop.simps) (simp add: Let_def)
    have len: "?c' < length ?h" using c'(1) by simp
    have sibling: "freq (h ! ?c') \<le> freq (h ! i)"
      if "i < length h" "0 < i" "(i - 1) div 2 = pos" for i
    proof -
      from that have "i = ?c \<or> i = ?c + 1" using parent_eq_cases [of i pos] by auto
      then show ?thesis using that(1) by (auto simp: node_lt_def)
    qed
    have a1: "\<forall>i < length ?h. 0 < i \<and> i \<noteq> ?c' \<and> (i - 1) div 2 \<noteq> ?c' \<longrightarrow>
                freq (?h ! ((i - 1) div 2)) \<le> freq (?h ! i)"
    proof (intro allI impI)
      fix i assume i: "i < length ?h" "0 < i \<and> i \<noteq> ?c' \<and> (i - 1) div 2 \<noteq> ?c'"
      then have il: "i < length h" by simp
      show "freq (?h ! ((i - 1) div 2)) \<le> freq (?h ! i)"
      proof (cases "i = pos")
        case True
        then have "(pos - 1) div 2 < pos" using i(2) parent_less by blast
        moreover have "freq (h ! ((pos - 1) div 2)) \<le> freq (h ! ?c')"
          using inv3 c' True i(2) by blast
        ultimately show ?thesis using True il by simp
      next
        case neq: False
        show ?thesis
        proof (cases "(i - 1) div 2 = pos")
          case True
          then show ?thesis using sibling [of i] il i(2) neq "1.prems"(1) by simp
        next
          case False
          then show ?thesis using inv1 il i(2) neq by simp
        qed
      qed
    qed
    have a3: "\<forall>i < length ?h. 0 < i \<and> (i - 1) div 2 = ?c' \<and> 0 < ?c' \<longrightarrow>
                freq (?h ! ((?c' - 1) div 2)) \<le> freq (?h ! i)"
    proof (intro allI impI)
      fix i assume i: "i < length ?h" "0 < i \<and> (i - 1) div 2 = ?c' \<and> 0 < ?c'"
      then have il: "i < length h" by simp
      have "(i - 1) div 2 < i" using i(2) parent_less by blast
      with i(2) have "?c' < i" by simp
      then have ip: "i \<noteq> pos" "(i - 1) div 2 \<noteq> pos" using c'(2) i(2) by auto
      then have "freq (h ! ((i - 1) div 2)) \<le> freq (h ! i)"
        using inv1 il i(2) by blast
      then have "freq (h ! ?c') \<le> freq (h ! i)" using i(2) by simp
      moreover have "?h ! ((?c' - 1) div 2) = h ! ?c'"
        using c'(3) "1.prems"(1) by simp
      moreover have "?h ! i = h ! i" using ip by simp
      ultimately show "freq (?h ! ((?c' - 1) div 2)) \<le> freq (?h ! i)" by simp
    qed
    show ?thesis
      unfolding eq using "1.hyps" [OF refl refl True refl refl len a1 a3] by simp
  qed
qed

lemma is_heap_Nil [simp]: "is_heap []"
  by (simp add: is_heap_def)

lemma is_heap_single [simp]: "is_heap [x]"
  by (simp add: is_heap_def)

lemma heappush_heap:
  assumes "is_heap heap"
  shows "is_heap (heappush heap item)"
proof -
  let ?h = "heap @ [item]"
  have "is_heap (siftdown ?h 0 (length heap))"
  proof (rule siftdown_heap)
    show "length heap < length ?h" by simp
    show "\<forall>i < length ?h. 0 < i \<and> i \<noteq> length heap \<longrightarrow>
            freq (?h ! ((i - 1) div 2)) \<le> freq (?h ! i)"
    proof (intro allI impI)
      fix i assume i: "i < length ?h" "0 < i \<and> i \<noteq> length heap"
      then have il: "i < length heap" by simp
      moreover have "(i - 1) div 2 < length heap" using il by auto
      ultimately show "freq (?h ! ((i - 1) div 2)) \<le> freq (?h ! i)"
        using assms i(2) by (simp add: is_heap_def nth_append)
    qed
    show "\<forall>i < length ?h. 0 < i \<longrightarrow> (i - 1) div 2 \<noteq> length heap"
      by auto
  qed
  then show ?thesis by (simp add: heappush_def Let_def)
qed

lemma is_heap_root_least:
  assumes "is_heap heap" "i < length heap"
  shows "freq (heap ! 0) \<le> freq (heap ! i)"
  using assms(2)
proof (induction i rule: less_induct)
  case (less i)
  show ?case
  proof (cases "i = 0")
    case True
    then show ?thesis by simp
  next
    case False
    then have p: "(i - 1) div 2 < i" by auto
    with less.prems have "freq (heap ! 0) \<le> freq (heap ! ((i - 1) div 2))"
      by (intro less.IH) auto
    moreover have "freq (heap ! ((i - 1) div 2)) \<le> freq (heap ! i)"
      using assms(1) less.prems False by (simp add: is_heap_def)
    ultimately show ?thesis by simp
  qed
qed

lemma heappop_heap:
  assumes "is_heap heap" "heappop heap = Some (x, heap')"
  shows "is_heap heap'" and "\<forall>n \<in> set heap. freq x \<le> freq n"
proof -
  from assms(2) have ne: "heap \<noteq> []" by (auto simp: heappop_def)
  let ?b = "butlast heap"
  show "is_heap heap'"
  proof (cases "?b = []")
    case True
    with assms(2) ne show ?thesis by (auto simp: heappop_def Let_def)
  next
    case False
    then have pos: "0 < length ?b" by (metis length_greater_0_conv)
    let ?h = "?b[0 := last heap]"
    from assms(2) ne False have h': "heap' = siftup ?h 0"
      by (auto simp: heappop_def Let_def)
    have "is_heap (siftup_loop ?h (?h ! 0) 0 0)"
    proof (rule siftup_loop_heap)
      show "0 < length ?h" using pos by simp
      show "\<forall>i < length ?h. 0 < i \<and> i \<noteq> 0 \<and> (i - 1) div 2 \<noteq> 0 \<longrightarrow>
              freq (?h ! ((i - 1) div 2)) \<le> freq (?h ! i)"
      proof (intro allI impI)
        fix i assume i: "i < length ?h" "0 < i \<and> i \<noteq> 0 \<and> (i - 1) div 2 \<noteq> 0"
        then have il: "i < length ?b" by simp
        then have ih: "i < length heap" by simp
        have pl: "(i - 1) div 2 < length ?b" using il by auto
        have "freq (heap ! ((i - 1) div 2)) \<le> freq (heap ! i)"
          using assms(1) ih i(2) by (simp add: is_heap_def)
        then show "freq (?h ! ((i - 1) div 2)) \<le> freq (?h ! i)"
          using i(2) il pl by (simp add: nth_butlast)
      qed
      show "\<forall>i < length ?h. 0 < i \<and> (i - 1) div 2 = 0 \<and> 0 < (0::nat) \<longrightarrow>
              freq (?h ! ((0 - 1) div 2)) \<le> freq (?h ! i)"
        by simp
    qed
    then show ?thesis by (simp add: h' siftup_def)
  qed
  have x: "x = heap ! 0"
  proof (cases "?b = []")
    case True
    then have "length heap = 1" using ne
      by (metis append_butlast_last_id length_Cons list.size(3) append_Nil One_nat_def)
    then have "last heap = heap ! 0" using ne by (simp add: last_conv_nth)
    with assms(2) ne True show ?thesis by (auto simp: heappop_def Let_def)
  next
    case False
    then have "0 < length ?b" by (metis length_greater_0_conv)
    then have "?b ! 0 = heap ! 0" by (simp add: nth_butlast)
    with assms(2) ne False show ?thesis by (auto simp: heappop_def Let_def)
  qed
  show "\<forall>n \<in> set heap. freq x \<le> freq n"
    using is_heap_root_least [OF assms(1)] by (auto simp: x in_set_conv_nth)
qed

lemma push_leaves_heap: "is_heap pq \<Longrightarrow> is_heap (push_leaves frequencies pq)"
  unfolding push_leaves_def
  by (induction frequencies arbitrary: pq) (auto simp: heappush_heap)

lemma wrap_single_heap:
  "is_heap pq \<Longrightarrow> wrap_single pq = Some pq' \<Longrightarrow> is_heap pq'"
  by (auto simp: wrap_single_def heappush_heap Let_def split: if_splits bind_splits dest: heappop_heap(1))

lemma builder_queue_heap:
  "wrap_single (push_leaves frequencies []) = Some pq \<Longrightarrow> is_heap pq"
  using push_leaves_heap [of "[]" frequencies] by (auto intro: wrap_single_heap)

lemma merge_step_heap:
  assumes "is_heap pq" "merge_step pq = Some pq'"
  shows "is_heap pq'"
proof -
  from assms(2) obtain a pq1 b pq2 where
    a: "heappop pq = Some (a, pq1)" and b: "heappop pq1 = Some (b, pq2)"
    and pq': "pq' = heappush pq2 (Node None (freq a + freq b) (Some a) (Some b))"
    by (auto simp: merge_step_def Let_def split: bind_splits)
  have "is_heap pq1" using heappop_heap(1) [OF assms(1) a] .
  then have "is_heap pq2" using heappop_heap(1) [OF _ b] by blast
  then show ?thesis unfolding pq' by (rule heappush_heap)
qed

section \<open>The example \<open>AAAAABBBCC\<close>, evaluated\<close>

lemma known_example:
  "generate_huffman_codes ''AAAAABBBCC'' =
     Some ([(CHR ''A'', ''0''), (CHR ''C'', ''10''), (CHR ''B'', ''11'')],
           [(CHR ''A'', 5), (CHR ''B'', 3), (CHR ''C'', 2)],
           Some (Node None 10 (Some (Node (Some CHR ''A'') 5 None None))
                  (Some (Node None 5 (Some (Node (Some CHR ''C'') 2 None None))
                                     (Some (Node (Some CHR ''B'') 3 None None))))))"
  by (simp add: generate_huffman_codes_def build_huffman_tree_def Counter_def dict_get_def
      push_leaves_def heappush_def siftdown_def siftdown_loop.simps siftup_loop.simps siftup_def
      heappop_def wrap_single_def merge_loop.simps merge_step_def node_lt_def Let_def)

lemma known_queue:
  "push_leaves [(CHR ''A'', 5), (CHR ''B'', 3), (CHR ''C'', 2)] [] =
     [Node (Some CHR ''C'') 2 None None, Node (Some CHR ''A'') 5 None None,
      Node (Some CHR ''B'') 3 None None]"
  by (simp add: push_leaves_def heappush_def siftdown_def siftdown_loop.simps node_lt_def Let_def)

lemma known_pops:
  "heappop [Node (Some CHR ''C'') 2 None None, Node (Some CHR ''A'') 5 None None,
            Node (Some CHR ''B'') 3 None None] =
     Some (Node (Some CHR ''C'') 2 None None,
           [Node (Some CHR ''B'') 3 None None, Node (Some CHR ''A'') 5 None None])"
  "heappop [Node (Some CHR ''B'') 3 None None, Node (Some CHR ''A'') 5 None None] =
     Some (Node (Some CHR ''B'') 3 None None, [Node (Some CHR ''A'') 5 None None])"
  by (simp_all add: heappop_def siftup_def siftup_loop.simps siftdown_def siftdown_loop.simps
      node_lt_def Let_def)

lemma known_push:
  "heappush [Node (Some CHR ''A'') 5 None None]
     (Node None 5 (Some (Node (Some CHR ''C'') 2 None None))
                  (Some (Node (Some CHR ''B'') 3 None None))) =
   [Node (Some CHR ''A'') 5 None None,
    Node None 5 (Some (Node (Some CHR ''C'') 2 None None))
                (Some (Node (Some CHR ''B'') 3 None None))]"
  by (simp add: heappush_def siftdown_def siftdown_loop.simps node_lt_def Let_def)

section \<open>The claims\<close>

text \<open>
  C1, amended. For every input with at least two distinct symbols the builder returns a
  tree, without an exception, in which every node without a symbol has a left and a right
  child and a frequency equal to the sum of the frequencies of the two. (For one distinct
  symbol the root has a left child only, see the counterexample and C2.)
\<close>

theorem C1_strictly_binary:
  assumes "2 \<le> card (set text)"
  shows "\<exists>root. build_huffman_tree text = Some (Some root, Counter text) \<and> strictly_binary root"
  using build_multi [OF assms] by blast

theorem C1_strictly_binary_witness:
  "2 \<le> card (set ''AAB'') \<and>
   (\<exists>root. build_huffman_tree ''AAB'' = Some (Some root, Counter ''AAB'') \<and> strictly_binary root)"
proof -
  have h: "2 \<le> card (set ''AAB'')" by simp
  show ?thesis using h C1_strictly_binary [OF h] by simp
qed

text \<open>
  C1 as stated fails: for the input \<open>AAAAA\<close> the root of the returned tree has no symbol
  and no right child.
\<close>

theorem C1_counterexample:
  "build_huffman_tree ''AAAAA'' =
     Some (Some (Node None 5 (Some (Node (Some CHR ''A'') 5 None None)) None), [(CHR ''A'', 5)]) \<and>
   \<not> strictly_binary (Node None 5 (Some (Node (Some CHR ''A'') 5 None None)) None)"
proof -
  have "''AAAAA'' \<noteq> []" "set ''AAAAA'' = {CHR ''A''}" by simp_all
  from build_single [OF this] show ?thesis by simp
qed

text \<open>
  C2. For a non-empty input with exactly one distinct symbol \<open>c\<close>, the frequency table
  maps \<open>c\<close> to the length of the input, the tree is a parent without a symbol whose left
  child is the leaf of \<open>c\<close> and whose right child is absent, the code of \<open>c\<close> is \<open>0\<close>, and
  the compressed size, also as \<open>huffman_utility\<close> reports it, is the length of the input.
\<close>

theorem C2_single_symbol:
  assumes "text \<noteq> []" "set text = {c}"
  shows "generate_huffman_codes text =
           Some ([(c, ''0'')], [(c, int (length text))],
                 Some (Node None (int (length text))
                        (Some (Node (Some c) (int (length text)) None None)) None)) \<and>
         compressed_size [(c, int (length text))] [(c, ''0'')] = int (length text) \<and>
         reported_compressed_bits (huffman_utility text) = Some (int (length text))"
proof -
  have g: "generate_huffman_codes text =
           Some ([(c, ''0'')], [(c, int (length text))],
                 Some (Node None (int (length text))
                        (Some (Node (Some c) (int (length text)) None None)) None))"
    by (simp add: generate_huffman_codes_def build_single [OF assms])
  have s: "compressed_size [(c, int (length text))] [(c, ''0'')] = int (length text)"
    by (simp add: compressed_size_def dict_get_def)
  show ?thesis
    using huffman_utility_nonempty [OF assms(1) g]
    by (simp add: g s reported_compressed_bits_def)
qed

theorem C2_single_symbol_witness:
  "''AAAAA'' \<noteq> [] \<and> set ''AAAAA'' = {CHR ''A''} \<and>
   generate_huffman_codes ''AAAAA'' =
     Some ([(CHR ''A'', ''0'')], [(CHR ''A'', 5)],
           Some (Node None 5 (Some (Node (Some CHR ''A'') 5 None None)) None)) \<and>
   compressed_size [(CHR ''A'', 5)] [(CHR ''A'', ''0'')] = 5 \<and>
   reported_compressed_bits (huffman_utility ''AAAAA'') = Some 5"
proof -
  have h: "''AAAAA'' \<noteq> []" "set ''AAAAA'' = {CHR ''A''}" by simp_all
  show ?thesis using h C2_single_symbol [OF h] by simp
qed

text \<open>
  C3. For every input with at least two distinct symbols the pipeline returns a code table
  in which no code is a prefix of the code of another symbol.
\<close>

theorem C3_prefix_free:
  assumes "2 \<le> card (set text)"
  shows "\<exists>codes root. generate_huffman_codes text = Some (codes, Counter text, Some root) \<and>
           prefix_free codes"
proof -
  from assms have "text \<noteq> []" by auto
  from generate_nonempty [OF this] show ?thesis
    using prefix_free_get_codes by blast
qed

theorem C3_prefix_free_witness:
  "2 \<le> card (set ''AAAAABBBCC'') \<and>
   prefix_free [(CHR ''A'', ''0''), (CHR ''C'', ''10''), (CHR ''B'', ''11'')]"
proof -
  have h: "2 \<le> card (set ''AAAAABBBCC'')" by simp
  from C3_prefix_free [OF h] obtain codes root where
    "generate_huffman_codes ''AAAAABBBCC'' = Some (codes, Counter ''AAAAABBBCC'', Some root)"
    "prefix_free codes" by blast
  then have "prefix_free [(CHR ''A'', ''0''), (CHR ''C'', ''10''), (CHR ''B'', ''11'')]"
    by (simp add: known_example)
  with h show ?thesis by simp
qed

text \<open>
  C4. For every input the pipeline returns a code table whose keys are the keys of the
  frequency table, which are the symbols of the input; no symbol has two entries.
\<close>

theorem C4_coverage:
  "\<exists>codes frequencies root.
     generate_huffman_codes text = Some (codes, frequencies, root) \<and>
     keys frequencies = set text \<and> keys codes = keys frequencies \<and>
     distinct (map fst codes)"
proof (cases "text = []")
  case True
  then show ?thesis by simp
next
  case False
  from generate_nonempty [OF this] obtain root where
    "generate_huffman_codes text =
       Some (get_codes_recursive (Some root) [] [], Counter text, Some root)"
    "symbols (Some root) = set text" by blast
  then show ?thesis
    by (simp add: keys_get_codes keys_Counter distinct_get_codes)
qed

text \<open>
  C5, amended. For the empty input the builder and the code generator return an empty
  frequency table, an empty code table and no tree, without an exception;
  \<open>huffman_utility\<close> returns its placeholders before any size is computed; and the
  guarded expression for the savings percentage returns 0 whenever the original size is 0,
  where the division alone would raise \<open>ZeroDivisionError\<close>.
\<close>

theorem C5_empty_input:
  "build_huffman_tree ([] :: 'a list) = Some (None, []) \<and>
   generate_huffman_codes ([] :: 'a list) = Some ([], [], None) \<and>
   huffman_utility ([] :: 'a list) = Some Not_Applicable \<and>
   savings_percent_of s 0 = Some 0 \<and>
   truediv s 0 = None"
  by (simp add: huffman_utility_def savings_percent_of_def truediv_def)

text \<open>
  C5 as stated fails: for the empty input \<open>huffman_utility\<close> derives no sizes, so it
  does not report an original size of 0 and a savings percentage of 0.
\<close>

theorem C5_counterexample:
  "huffman_utility ('''' :: string) = Some Not_Applicable \<and>
   huffman_utility ('''' :: string) \<noteq> Some (Sizes 0 0 0 0)"
  by (simp add: huffman_utility_def)

text \<open>
  C6. For every input, every symbol of the input has a code, and the concatenation of
  the codes of its symbols has as many bits as the sum over the frequency table of
  frequency times code length; for a non-empty input that is the compressed size
  \<open>huffman_utility\<close> reports.
\<close>

theorem C6_round_trip_length:
  "\<exists>codes frequencies root bits.
     generate_huffman_codes text = Some (codes, frequencies, root) \<and>
     encode codes text = Some bits \<and>
     compressed_size frequencies codes = int (length bits) \<and>
     reported_compressed_bits (huffman_utility text) =
       (if text = [] then None else Some (int (length bits)))"
proof (cases "text = []")
  case True
  then show ?thesis
    by (simp add: compressed_size_def huffman_utility_def reported_compressed_bits_def)
next
  case False
  from generate_nonempty [OF this] obtain root where
    g: "generate_huffman_codes text =
       Some (get_codes_recursive (Some root) [] [], Counter text, Some root)"
    and sy: "symbols (Some root) = set text" by blast
  let ?codes = "get_codes_recursive (Some root) [] []"
  have "set text \<subseteq> keys ?codes"
    by (simp add: keys_get_codes sy)
  from encode_length [OF this] obtain bits where
    bits: "encode ?codes text = Some bits"
      "int (length bits) = (\<Sum>c\<leftarrow>text. int (length (dict_get ?codes c [])))"
    by blast
  have c: "compressed_size (Counter text) ?codes = int (length bits)"
    by (simp add: compressed_size_sum bits(2)
        Counter_sum [of "\<lambda>c. int (length (dict_get ?codes c []))"])
  have "reported_compressed_bits (huffman_utility text) = Some (int (length bits))"
    using huffman_utility_nonempty [OF False g] by (simp add: c reported_compressed_bits_def)
  with g bits(1) c False show ?thesis by simp
qed

text \<open>
  C7. For the input \<open>AAAAABBBCC\<close> the frequencies are A:5, B:3, C:2, the codes are
  A:0, C:10, B:11, so the code of A is no longer than that of B and the code of B no
  longer than that of C; the compressed size is 15 bits, less than the original 80.
\<close>

theorem C7_known_example:
  "generate_huffman_codes ''AAAAABBBCC'' =
     Some ([(CHR ''A'', ''0''), (CHR ''C'', ''10''), (CHR ''B'', ''11'')],
           [(CHR ''A'', 5), (CHR ''B'', 3), (CHR ''C'', 2)],
           Some (Node None 10 (Some (Node (Some CHR ''A'') 5 None None))
                  (Some (Node None 5 (Some (Node (Some CHR ''C'') 2 None None))
                                     (Some (Node (Some CHR ''B'') 3 None None)))))) \<and>
   code_length [(CHR ''A'', ''0''), (CHR ''C'', ''10''), (CHR ''B'', ''11'')] CHR ''A''
     \<le> code_length [(CHR ''A'', ''0''), (CHR ''C'', ''10''), (CHR ''B'', ''11'')] CHR ''B'' \<and>
   code_length [(CHR ''A'', ''0''), (CHR ''C'', ''10''), (CHR ''B'', ''11'')] CHR ''B''
     \<le> code_length [(CHR ''A'', ''0''), (CHR ''C'', ''10''), (CHR ''B'', ''11'')] CHR ''C'' \<and>
   compressed_size [(CHR ''A'', 5), (CHR ''B'', 3), (CHR ''C'', 2)]
       [(CHR ''A'', ''0''), (CHR ''C'', ''10''), (CHR ''B'', ''11'')]
     < int (length ''AAAAABBBCC'') * 8 \<and>
   huffman_utility ''AAAAABBBCC'' = Some (Sizes 80 15 65 (325 / 4))"
  using huffman_utility_nonempty [OF _ known_example]
  by (simp add: known_example compressed_size_def dict_get_def code_length_def)

text \<open>
  C9. A merge step on a heap with more than one node pops a node \<open>a\<close> of least
  frequency, then a node \<open>b\<close> of least frequency among the rest, and pushes a parent
  whose left child is \<open>a\<close>, the first popped, and whose right child is \<open>b\<close>, the second
  popped, whatever the two nodes hold; the queue is a heap again afterwards. The queue of
  the builder is a heap when the loop starts (\<open>builder_queue_heap\<close>).
\<close>

theorem C9_child_order:
  assumes "is_heap pq" "1 < length pq"
  shows "\<exists>a pq1 b pq2.
           heappop pq = Some (a, pq1) \<and> heappop pq1 = Some (b, pq2) \<and>
           (\<forall>n \<in> set pq. freq a \<le> freq n) \<and> (\<forall>n \<in> set pq1. freq b \<le> freq n) \<and>
           merge_step pq =
             Some (heappush pq2 (Node None (freq a + freq b) (Some a) (Some b))) \<and>
           is_heap (heappush pq2 (Node None (freq a + freq b) (Some a) (Some b)))"
proof -
  from assms(2) have "pq \<noteq> []" by auto
  then obtain a pq1 where a: "heappop pq = Some (a, pq1)"
    using heappop_Some by blast
  with assms(2) have "pq1 \<noteq> []"
    using heappop_length [OF a] by auto
  then obtain b pq2 where b: "heappop pq1 = Some (b, pq2)"
    using heappop_Some by blast
  have pq1: "is_heap pq1" and least_a: "\<forall>n \<in> set pq. freq a \<le> freq n"
    using heappop_heap [OF assms(1) a] by blast+
  have pq2: "is_heap pq2" and least_b: "\<forall>n \<in> set pq1. freq b \<le> freq n"
    using heappop_heap [OF pq1 b] by blast+
  have "merge_step pq = Some (heappush pq2 (Node None (freq a + freq b) (Some a) (Some b)))"
    by (simp add: merge_step_def a b)
  moreover have "is_heap (heappush pq2 (Node None (freq a + freq b) (Some a) (Some b)))"
    using pq2 by (rule heappush_heap)
  ultimately show ?thesis using a b least_a least_b by blast
qed

theorem C9_child_order_witness:
  "is_heap [Node (Some CHR ''C'') 2 None None, Node (Some CHR ''A'') 5 None None,
            Node (Some CHR ''B'') 3 None None] \<and>
   1 < length [Node (Some CHR ''C'') 2 None None, Node (Some CHR ''A'') 5 None None,
               Node (Some CHR ''B'') 3 None None] \<and>
   merge_step [Node (Some CHR ''C'') 2 None None, Node (Some CHR ''A'') 5 None None,
               Node (Some CHR ''B'') 3 None None] =
     Some [Node (Some CHR ''A'') 5 None None,
           Node None 5 (Some (Node (Some CHR ''C'') 2 None None))
                       (Some (Node (Some CHR ''B'') 3 None None))]"
proof -
  let ?pq = "[Node (Some CHR ''C'') 2 None None, Node (Some CHR ''A'') 5 None None,
              Node (Some CHR ''B'') 3 None None]"
  have "is_heap (push_leaves [(CHR ''A'', 5), (CHR ''B'', 3), (CHR ''C'', 2)] [])"
    by (simp add: push_leaves_heap)
  then have h1: "is_heap ?pq" by (simp only: known_queue)
  have h2: "1 < length ?pq" by simp
  from C9_child_order [OF h1 h2] obtain a pq1 b pq2 where
    a: "heappop ?pq = Some (a, pq1)" and b: "heappop pq1 = Some (b, pq2)" and
    m: "merge_step ?pq = Some (heappush pq2 (Node None (freq a + freq b) (Some a) (Some b)))"
    by blast
  from a have a': "a = Node (Some CHR ''C'') 2 None None"
    "pq1 = [Node (Some CHR ''B'') 3 None None, Node (Some CHR ''A'') 5 None None]"
    by (simp_all only: known_pops option.inject prod.inject)
  from b have b': "b = Node (Some CHR ''B'') 3 None None" "pq2 = [Node (Some CHR ''A'') 5 None None]"
    unfolding a' by (simp_all only: known_pops option.inject prod.inject)
  have "merge_step ?pq =
     Some [Node (Some CHR ''A'') 5 None None,
           Node None 5 (Some (Node (Some CHR ''C'') 2 None None))
                       (Some (Node (Some CHR ''B'') 3 None None))]"
    unfolding m a' b' by (simp add: known_push)
  with h1 h2 show ?thesis by simp
qed

text \<open>
  C10. The pipeline returns a result for every input, so the traversal ends without an
  exception on every tree the builder makes. On an absent node the traversal returns the
  code table unchanged; on the tree of a single symbol, whose right child is absent, it
  stores the one entry for the left leaf and nothing else.
\<close>

theorem C10_traversal_total:
  "(\<exists>codes frequencies root. generate_huffman_codes text = Some (codes, frequencies, root)) \<and>
   get_codes_recursive None current_code codes0 = codes0 \<and>
   get_codes_recursive (Some (Node None f (Some (Node (Some c) f None None)) None)) [] [] =
     [(c, ''0'')]"
proof -
  have "\<exists>codes frequencies root. generate_huffman_codes text = Some (codes, frequencies, root)"
  proof (cases "text = []")
    case True
    then show ?thesis by simp
  next
    case False
    from generate_nonempty [OF this] show ?thesis by blast
  qed
  then show ?thesis by simp
qed

end
